theory Spec2Isabelle
  imports Main "HOL-Library.Word"
begin

section \<open>The container of \<open>src/core/smallvec_type.hpp\<close>\<close>

text \<open>
  \<open>SmallVector<T, S>\<close> is a \<open>std::vector<T>\<close> with a few extra member functions.
  The model fixes the usual 64-bit data model: \<open>std::size_t\<close> has 64 bits, \<open>int\<close> and
  \<open>uint\<close> have 32 bits.

  A \<open>T *\<close> into the storage is an integer address counted in units of \<open>sizeof(T)\<close>, so
  that pointer arithmetic is integer arithmetic. The storage address \<open>data\<close> belongs to
  the allocator: \<open>emplace_back\<close> and the copies take the address of the storage after
  the call as their parameter \<open>d'\<close> (the old address when nothing moved), and the
  allocation of their one more element is taken to succeed. \<open>resize\<close>, which can ask
  for any amount of storage in one call, has both of its failures in the model.
\<close>

type_synonym ptr = int

text \<open>\<open>std::vector<T>\<close>: the address of the contiguous storage and the live elements.\<close>

record 'a std_vector =
  data :: ptr
  elems :: "'a list"

text \<open>
  \<open>class SmallVector : public std::vector<T>\<close>, with the template parameter \<open>S\<close>
  ("the steps of allocation") kept as a field that no operation reads or writes.
\<close>

record 'a SmallVector = "'a std_vector" +
  steps :: "32 word"

text \<open>
  The ways a call can end without a result: a failed \<open>assert\<close>, a call that names no
  declared function, the two exceptions of \<open>resize\<close>, and undefined behaviour.
\<close>

datatype error = AssertionFailed | NoMatchingOverload | LengthError | BadAlloc | UndefinedBehaviour

subsection \<open>The parts of \<open>std::vector\<close> and \<open>std::find\<close> that the file calls\<close>

text \<open>\<open>vec.size()\<close>, a \<open>std::size_t\<close>.\<close>

definition size_vec :: "('a, 'm) std_vector_scheme \<Rightarrow> 64 word" where
  "size_vec v = of_nat (length (elems v))"

text \<open>\<open>emplace_back(item)\<close>: one more element at the end.\<close>

definition emplace_back :: "ptr \<Rightarrow> 'a \<Rightarrow> ('a, 'm) std_vector_scheme \<Rightarrow> ('a, 'm) std_vector_scheme" where
  "emplace_back d' item v = v\<lparr>data := d', elems := elems v @ [item]\<rparr>"

text \<open>
  \<open>std::find(begin, end, item)\<close> as the offset of the iterator it returns from \<open>begin\<close>:
  the first position whose element is \<open>== item\<close>, the length of the range (the offset
  of \<open>end\<close>) when there is none.
\<close>

fun std_find :: "'a list \<Rightarrow> 'a \<Rightarrow> nat" where
  "std_find [] item = 0"
| "std_find (x # xs) item = (if x = item then 0 else Suc (std_find xs item))"

text \<open>
  \<open>resize(n)\<close>. Down to \<open>n\<close> elements it keeps the first \<open>n\<close> and moves nothing. Up
  to \<open>n\<close> elements it throws \<open>std::length_error\<close> when \<open>n\<close> is above \<open>max_size()\<close>
  and \<open>std::bad_alloc\<close> when the allocator has no storage for it; the vector is then
  as before. Otherwise the missing elements are value-initialised (\<open>dflt\<close> stands for
  \<open>T()\<close>). \<open>max_size()\<close> is the library's, a \<open>std::size_t\<close> taken as the parameter
  \<open>max_size\<close>; \<open>alloc\<close> is what the allocator answers: \<open>None\<close> when it fails, the
  address of the storage after the call otherwise.
\<close>

definition resize :: "'a \<Rightarrow> 64 word \<Rightarrow> ptr option \<Rightarrow> nat \<Rightarrow> ('a, 'm) std_vector_scheme
    \<Rightarrow> error + ('a, 'm) std_vector_scheme" where
  "resize dflt max_size alloc n v =
     (if n \<le> length (elems v) then Inr (v\<lparr>elems := take n (elems v)\<rparr>)
      else if unat max_size < n then Inl LengthError
      else case alloc of
             None \<Rightarrow> Inl BadAlloc
           | Some d' \<Rightarrow> Inr (v\<lparr>data := d', elems := elems v @ replicate (n - length (elems v)) dflt\<rparr>))"

text \<open>\<open>clear()\<close>: no element is left.\<close>

definition clear :: "('a, 'm) std_vector_scheme \<Rightarrow> ('a, 'm) std_vector_scheme" where
  "clear v = v\<lparr>elems := []\<rparr>"

text \<open>
  The call of line 79, \<open>std::vector<T>::insert(pos)\<close> with a position and nothing
  else. \<open>std::vector\<close> declares no \<open>insert\<close> of one parameter, so the call names no
  function for any \<open>T\<close>: it has no result at any argument.
\<close>

definition std_insert_pos :: "64 word \<Rightarrow> ('a, 'm) std_vector_scheme
    \<Rightarrow> error + ('a, 'm) std_vector_scheme" where
  "std_insert_pos start v = Inl NoMatchingOverload"

subsection \<open>\<open>SmallVector\<close>\<close>

text \<open>\<open>Begin()\<close> is \<open>data()\<close>, \<open>End()\<close> is \<open>data() + size()\<close>.\<close>

definition Begin :: "('a, 'm) std_vector_scheme \<Rightarrow> ptr" where
  "Begin v = data v"

definition End :: "('a, 'm) std_vector_scheme \<Rightarrow> ptr" where
  "End v = data v + int (length (elems v))"

text \<open>Reading through a \<open>T *\<close>: \<open>*p\<close> is defined for the addresses of the live slots only.\<close>

definition deref :: "('a, 'm) std_vector_scheme \<Rightarrow> ptr \<Rightarrow> 'a option" where
  "deref v p = (if data v \<le> p \<and> p < data v + int (length (elems v))
                then Some (elems v ! nat (p - data v)) else None)"

text \<open>
  The generic copy constructor \<open>SmallVector(const SmallVector<T, X> &other)\<close> builds a
  vector with its own parameter \<open>s\<close> and its own storage from the elements of \<open>other\<close>;
  the generic assignment replaces the elements of the receiver.
\<close>

definition copy_construct :: "32 word \<Rightarrow> ptr \<Rightarrow> 'a SmallVector \<Rightarrow> 'a SmallVector" where
  "copy_construct s d' other = \<lparr>data = d', elems = elems other, steps = s\<rparr>"

definition assign :: "ptr \<Rightarrow> 'a SmallVector \<Rightarrow> 'a SmallVector \<Rightarrow> 'a SmallVector" where
  "assign d' other this = this\<lparr>data := d', elems := elems other\<rparr>"

text \<open>
  \<open>Insert(item)\<close>, statement by statement. The expansion of \<open>assert\<close> is not part of
  the file: \<open>asserts\<close> tells whether the build compiles assertions in, and without them
  the position is not looked at. \<open>start\<close> is a \<open>std::size_t\<close>. The vector is then
  handed to the call of line 79, and the pointer to return is taken from its result.
\<close>

definition Insert :: "bool \<Rightarrow> ('a, 'm) std_vector_scheme \<Rightarrow> ptr
    \<Rightarrow> error + (('a, 'm) std_vector_scheme \<times> ptr)" where
  "Insert asserts v item =
     (if asserts \<and> \<not> (item \<ge> Begin v \<and> item \<le> End v) then Inl AssertionFailed
      else
        let start = (word_of_int (item - Begin v) :: 64 word)
        in case std_insert_pos start v of
             Inl e \<Rightarrow> Inl e
           | Inr v' \<Rightarrow> Inr (v', Begin v' + uint start))"

text \<open>
  \<open>FindIndex\<close> returns an \<open>int\<close>: the difference of two iterators, a 64-bit
  \<open>ptrdiff_t\<close>, is narrowed to 32 bits, and \<open>sint\<close> reads the result.
\<close>

definition FindIndex :: "'a \<Rightarrow> ('a, 'm) std_vector_scheme \<Rightarrow> 32 word" where
  "FindIndex item v =
     (let it = std_find (elems v) item
      in if it = length (elems v) then - 1 else of_nat it)"

text \<open>\<open>Include\<close>: the vector after the call and the returned \<open>is_member\<close>.\<close>

definition Include :: "ptr \<Rightarrow> 'a \<Rightarrow> ('a, 'm) std_vector_scheme \<Rightarrow> ('a, 'm) std_vector_scheme \<times> bool" where
  "Include d' item v =
     (let is_member = (std_find (elems v) item \<noteq> length (elems v))
      in (if \<not> is_member then emplace_back d' item v else v, is_member))"

subsection \<open>\<open>grow\<close>\<close>

text \<open>
  \<open>pos + num\<close> is a sum of two \<open>std::size_t\<close> and wraps at \<open>2 ^ 64\<close>. An exception
  of \<open>resize\<close> leaves \<open>grow\<close> before the pointer is computed.
\<close>

definition grow :: "'a \<Rightarrow> 64 word \<Rightarrow> ptr option \<Rightarrow> ('a, 'm) std_vector_scheme \<Rightarrow> 64 word
    \<Rightarrow> error + (('a, 'm) std_vector_scheme \<times> ptr)" where
  "grow dflt max_size alloc vec num =
     (let pos = size_vec vec
      in case resize dflt max_size alloc (unat (pos + num)) vec of
           Inl e \<Rightarrow> Inl e
         | Inr vec' \<Rightarrow> Inr (vec', data vec' + uint pos))"

subsection \<open>\<open>AutoFreeSmallVector\<close> and \<open>AutoDeleteSmallVector\<close>\<close>

text \<open>
  The element type of the two owning vectors is a pointer; \<open>0\<close> is the null pointer.
  The heap is the set of the objects that are alive, together with the trace of the
  teardown operations that reached an object.
\<close>

datatype event = Released ptr | Destroyed ptr

record heap =
  live :: "ptr set"
  events :: "event list"

text \<open>
  Modelled from the spec: \<open>free\<close> is not part of the file. Releasing a null pointer is
  a safe no-op; the raw release of a live object ends its lifetime and adds
  \<open>Released p\<close> to the trace; releasing anything else, so releasing an object again, is
  undefined.
\<close>

definition free_op :: "ptr \<Rightarrow> heap \<Rightarrow> error + heap" where
  "free_op p h =
     (if p = 0 then Inr h
      else if p \<in> live h then Inr (h\<lparr>live := live h - {p}, events := events h @ [Released p]\<rparr>)
      else Inl UndefinedBehaviour)"

text \<open>
  Modelled from the spec: \<open>delete\<close> is not part of the file. Destroying a null pointer
  is a safe no-op; the full destroy of a live object ends its lifetime and adds
  \<open>Destroyed p\<close> to the trace; destroying anything else, so destroying an object
  again, is undefined.
\<close>

definition delete_op :: "ptr \<Rightarrow> heap \<Rightarrow> error + heap" where
  "delete_op p h =
     (if p = 0 then Inr h
      else if p \<in> live h then Inr (h\<lparr>live := live h - {p}, events := events h @ [Destroyed p]\<rparr>)
      else Inl UndefinedBehaviour)"

text \<open>
  The loop of both \<open>Clear\<close> functions, from the value \<open>i\<close> of its counter on. The
  counter is a \<open>uint\<close>: it is widened for the comparison with \<open>size()\<close> and for
  \<open>operator[]\<close>, and \<open>i++\<close> wraps at \<open>2 ^ 32\<close>. \<open>None\<close> is a loop that never ends;
  a teardown that is undefined ends the run.
\<close>

partial_function (option) Clear_loop ::
    "('a \<Rightarrow> 'w \<Rightarrow> error + 'w) \<Rightarrow> ('a, 'm) std_vector_scheme \<Rightarrow> 32 word \<Rightarrow> 'w
      \<Rightarrow> (error + 'w) option" where
  "Clear_loop teardown v i w =
     (if (ucast i :: 64 word) < size_vec v
      then case teardown (elems v ! unat (ucast i :: 64 word)) w of
             Inl e \<Rightarrow> Some (Inl e)
           | Inr w' \<Rightarrow> Clear_loop teardown v (i + 1) w'
      else Some (Inr w))"

text \<open>\<open>Clear\<close>: the loop, then \<open>clear()\<close>.\<close>

definition AutoFree_Clear :: "ptr SmallVector \<Rightarrow> heap \<Rightarrow> (error + ptr SmallVector \<times> heap) option" where
  "AutoFree_Clear v h = map_option (map_sum id (\<lambda>h'. (clear v, h'))) (Clear_loop free_op v 0 h)"

definition AutoDelete_Clear :: "ptr SmallVector \<Rightarrow> heap \<Rightarrow> (error + ptr SmallVector \<times> heap) option" where
  "AutoDelete_Clear v h = map_option (map_sum id (\<lambda>h'. (clear v, h'))) (Clear_loop delete_op v 0 h)"

text \<open>The destructors call \<open>Clear\<close>; the vector is gone afterwards, the heap stays.\<close>

definition AutoFree_destroy :: "ptr SmallVector \<Rightarrow> heap \<Rightarrow> (error + heap) option" where
  "AutoFree_destroy v h = map_option (map_sum id snd) (AutoFree_Clear v h)"

definition AutoDelete_destroy :: "ptr SmallVector \<Rightarrow> heap \<Rightarrow> (error + heap) option" where
  "AutoDelete_destroy v h = map_option (map_sum id snd) (AutoDelete_Clear v h)"

section \<open>Properties\<close>

lemma std_find_le: "std_find xs item \<le> length xs"
  by (induction xs) auto

lemma std_find_absent: "std_find xs item = length xs \<longleftrightarrow> item \<notin> set xs"
proof (induction xs)
  case Nil
  show ?case by simp
next
  case (Cons x xs)
  have "std_find xs item \<le> length xs" by (rule std_find_le)
  with Cons show ?case by auto
qed

lemma std_find_hit: "item \<in> set xs \<Longrightarrow> xs ! std_find xs item = item"
  by (induction xs) auto

lemma std_find_first: "j < std_find xs item \<Longrightarrow> xs ! j \<noteq> item"
proof (induction xs arbitrary: j)
  case Nil
  then show ?case by simp
next
  case (Cons x xs)
  then show ?case by (cases j) (auto split: if_splits)
qed

text \<open>
  C2. \<open>Include(v)\<close> on a vector with no element equal to \<open>v\<close> appends \<open>v\<close> (one more
  element, the earlier ones unchanged) and returns false; on a vector with an element
  equal to \<open>v\<close> it returns true and leaves the vector as it is.
\<close>

theorem Include_reports_prior_membership:
  "(item \<notin> set (elems v) \<longrightarrow>
      snd (Include d' item v) = False \<and>
      elems (fst (Include d' item v)) = elems v @ [item] \<and>
      length (elems (fst (Include d' item v))) = length (elems v) + 1 \<and>
      (\<forall>i < length (elems v). elems (fst (Include d' item v)) ! i = elems v ! i)) \<and>
   (item \<in> set (elems v) \<longrightarrow>
      snd (Include d' item v) = True \<and> fst (Include d' item v) = v)"
  by (simp add: Include_def emplace_back_def std_find_absent nth_append)

theorem Include_reports_prior_membership_witness:
  "snd (Include 64 4 \<lparr>data = 16, elems = [1, 2, 3 :: int], steps = 8\<rparr>) = False \<and>
   elems (fst (Include 64 4 \<lparr>data = 16, elems = [1, 2, 3 :: int], steps = 8\<rparr>)) = [1, 2, 3, 4] \<and>
   snd (Include 64 2 \<lparr>data = 16, elems = [1, 2, 3 :: int], steps = 8\<rparr>) = True \<and>
   fst (Include 64 2 \<lparr>data = 16, elems = [1, 2, 3 :: int], steps = 8\<rparr>)
     = \<lparr>data = 16, elems = [1, 2, 3 :: int], steps = 8\<rparr>"
  using Include_reports_prior_membership
    [of 4 "\<lparr>data = 16, elems = [1, 2, 3 :: int], steps = 8\<rparr>" 64]
    Include_reports_prior_membership
    [of 2 "\<lparr>data = 16, elems = [1, 2, 3 :: int], steps = 8\<rparr>" 64]
  by simp

text \<open>
  C8. \<open>End() - Begin()\<close> is the size, and for every index \<open>i\<close> below the size the
  element at \<open>Begin() + i\<close> is the element at index \<open>i\<close>. This holds in every state
  of the vector.
\<close>

theorem Begin_End_span:
  "End v - Begin v = int (length (elems v)) \<and>
   (\<forall>i < length (elems v). deref v (Begin v + int i) = Some (elems v ! i))"
  by (simp add: Begin_def End_def deref_def)

theorem Begin_End_span_witness:
  "End \<lparr>data = 16, elems = [1, 2, 3 :: int], steps = 8\<rparr>
     - Begin \<lparr>data = 16, elems = [1, 2, 3 :: int], steps = 8\<rparr> = 3 \<and>
   deref \<lparr>data = 16, elems = [1, 2, 3 :: int], steps = 8\<rparr> 18 = Some 3"
proof -
  have "(2::nat) < length (elems \<lparr>data = 16, elems = [1, 2, 3 :: int], steps = 8\<rparr>)" by simp
  with Begin_End_span [of "\<lparr>data = 16, elems = [1, 2, 3 :: int], steps = 8\<rparr>"]
  have "deref \<lparr>data = 16, elems = [1, 2, 3 :: int], steps = 8\<rparr>
          (Begin \<lparr>data = 16, elems = [1, 2, 3 :: int], steps = 8\<rparr> + int 2)
        = Some (elems \<lparr>data = 16, elems = [1, 2, 3 :: int], steps = 8\<rparr> ! 2)"
    by blast
  then have "deref \<lparr>data = 16, elems = [1, 2, 3 :: int], steps = 8\<rparr> 18 = Some 3"
    by (simp add: Begin_def)
  with Begin_End_span [of "\<lparr>data = 16, elems = [1, 2, 3 :: int], steps = 8\<rparr>"]
  show ?thesis by simp
qed




text \<open>
  C1. The claim, as the comment of \<open>Insert\<close>, has a new element at the position and
  the elements from there on one slot later. The code does not get there: at index 1
  of \<open>[1, 2, 3, 4]\<close>, a valid position, the call of line 79 names no function, with
  and without assertions, and nothing is inserted.
\<close>

theorem Insert_at_index_names_no_function:
  "Begin \<lparr>data = 16, elems = [1, 2, 3, 4 :: int], steps = 8\<rparr> \<le> 17 \<and>
   17 \<le> End \<lparr>data = 16, elems = [1, 2, 3, 4 :: int], steps = 8\<rparr> \<and>
   Insert True \<lparr>data = 16, elems = [1, 2, 3, 4 :: int], steps = 8\<rparr> 17 = Inl NoMatchingOverload \<and>
   Insert False \<lparr>data = 16, elems = [1, 2, 3, 4 :: int], steps = 8\<rparr> 17 = Inl NoMatchingOverload"
  by (simp add: Insert_def Begin_def End_def std_insert_pos_def)

text \<open>
  C5. The claim has \<open>Insert\<close> at \<open>End()\<close> do what appending does. On \<open>[1, 2, 3]\<close>
  appending 9 gives \<open>[1, 2, 3, 9]\<close>, while \<open>Insert(End())\<close> stops at the call of
  line 79, which names no function, and appends nothing.
\<close>

theorem Insert_at_End_names_no_function:
  "Insert True \<lparr>data = 16, elems = [1, 2, 3 :: int], steps = 8\<rparr>
      (End \<lparr>data = 16, elems = [1, 2, 3 :: int], steps = 8\<rparr>) = Inl NoMatchingOverload \<and>
   Insert False \<lparr>data = 16, elems = [1, 2, 3 :: int], steps = 8\<rparr>
      (End \<lparr>data = 16, elems = [1, 2, 3 :: int], steps = 8\<rparr>) = Inl NoMatchingOverload \<and>
   emplace_back 16 9 \<lparr>data = 16, elems = [1, 2, 3 :: int], steps = 8\<rparr>
     = \<lparr>data = 16, elems = [1, 2, 3, 9], steps = 8\<rparr>"
  by (simp add: Insert_def Begin_def End_def std_insert_pos_def emplace_back_def)

lemma std_find_lowest:
  assumes "i < length xs" "xs ! i = item" "\<forall>j < i. xs ! j \<noteq> item"
  shows "std_find xs item = i"
proof -
  have mem: "item \<in> set xs" using assms(1,2) by (metis nth_mem)
  have "\<not> i < std_find xs item" using std_find_first [of i xs item] assms(2) by blast
  moreover have "\<not> std_find xs item < i" using assms(3) std_find_hit [OF mem] by blast
  ultimately show ?thesis by simp
qed

text \<open>The narrowing of an offset to the 32-bit \<open>int\<close> that \<open>FindIndex\<close> returns.\<close>

lemma narrow_int: "sint (of_nat k :: 32 word) = (int k + 2 ^ 31) mod 2 ^ 32 - 2 ^ 31"
proof -
  have "(of_nat k :: 32 word) = word_of_int (int k)" by simp
  then show ?thesis by (simp only: int_word_sint) simp
qed

lemma narrow_int_small: "k < 2 ^ 31 \<Longrightarrow> sint (of_nat k :: 32 word) = int k"
  by (simp add: narrow_int)

lemma std_find_replicate: "a \<noteq> b \<Longrightarrow> std_find (replicate n a @ b # ys) b = n"
  by (induction n) auto

lemma FindIndex_replicate:
  assumes "a \<noteq> b" "elems v = replicate n a @ [b]"
  shows "FindIndex b v = of_nat n"
  using assms by (simp add: FindIndex_def std_find_replicate)

text \<open>
  C3, as the code has it. \<open>FindIndex(v)\<close> returns -1, the "not found" result, when
  no element equals \<open>v\<close>, so on every empty vector; when \<open>i\<close> is the lowest index
  whose element equals \<open>v\<close> and \<open>i\<close> is below \<open>2 ^ 31\<close>, it returns \<open>i\<close>, which is
  not the "not found" result.
\<close>

theorem FindIndex_lowest_index:
  "(item \<notin> set (elems v) \<longrightarrow> FindIndex item v = - 1) \<and>
   (elems v = [] \<longrightarrow> FindIndex item v = - 1) \<and>
   (\<forall>i. i < length (elems v) \<and> elems v ! i = item \<and> (\<forall>j < i. elems v ! j \<noteq> item) \<and> i < 2 ^ 31
      \<longrightarrow> sint (FindIndex item v) = int i \<and> FindIndex item v \<noteq> - 1)"
proof -
  have absent: "item \<notin> set (elems v) \<longrightarrow> FindIndex item v = - 1"
    by (simp add: FindIndex_def std_find_absent)
  have empty: "elems v = [] \<longrightarrow> FindIndex item v = - 1"
    by (simp add: FindIndex_def)
  have found: "sint (FindIndex item v) = int i \<and> FindIndex item v \<noteq> - 1"
    if h: "i < length (elems v)" "elems v ! i = item" "\<forall>j < i. elems v ! j \<noteq> item" "i < 2 ^ 31" for i
  proof -
    have "std_find (elems v) item = i" using h(1-3) by (rule std_find_lowest)
    then have "FindIndex item v = of_nat i" using h(1) by (simp add: FindIndex_def)
    then have s: "sint (FindIndex item v) = int i" using h(4) by (simp add: narrow_int_small)
    then have "FindIndex item v \<noteq> - 1" by auto
    with s show ?thesis by simp
  qed
  from absent empty found show ?thesis by blast
qed

theorem FindIndex_lowest_index_witness:
  "sint (FindIndex 2 \<lparr>data = 16, elems = [1, 2, 3, 2 :: int], steps = 8\<rparr>) = 1 \<and>
   FindIndex 5 \<lparr>data = 16, elems = [1, 2, 3, 2 :: int], steps = 8\<rparr> = - 1 \<and>
   FindIndex 5 \<lparr>data = 16, elems = [] :: int list, steps = 8\<rparr> = - 1"
proof -
  let ?v = "\<lparr>data = 16, elems = [1, 2, 3, 2 :: int], steps = 8\<rparr>"
  have "(1::nat) < length (elems ?v) \<and> elems ?v ! 1 = 2 \<and> (\<forall>j < 1. elems ?v ! j \<noteq> 2) \<and> (1::nat) < 2 ^ 31"
    by simp
  with FindIndex_lowest_index [of 2 ?v] have "sint (FindIndex 2 ?v) = int 1" by blast
  moreover have "FindIndex 5 ?v = - 1" using FindIndex_lowest_index [of 5 ?v] by simp
  moreover have "FindIndex 5 \<lparr>data = 16, elems = [] :: int list, steps = 8\<rparr> = - 1"
    using FindIndex_lowest_index [of 5 "\<lparr>data = 16, elems = [] :: int list, steps = 8\<rparr>"] by simp
  ultimately show ?thesis by simp
qed

text \<open>
  C3 as stated fails where the lowest index does not fit an \<open>int\<close>: in a vector of
  \<open>2 ^ 31\<close> zeros followed by a one, the lowest index of 1 is \<open>2 ^ 31\<close>, and
  \<open>FindIndex(1)\<close> returns \<open>- 2 ^ 31\<close>.
\<close>

theorem FindIndex_narrowing_counterexample:
  "(replicate (2 ^ 31) 0 @ [1 :: nat]) ! (2 ^ 31) = 1 \<and>
   1 \<notin> set (replicate (2 ^ 31) (0 :: nat)) \<and>
   sint (FindIndex 1 \<lparr>data = 0, elems = replicate (2 ^ 31) 0 @ [1 :: nat], steps = 4\<rparr>) = - (2 ^ 31)"
proof -
  have "FindIndex 1 \<lparr>data = 0, elems = replicate (2 ^ 31) 0 @ [1 :: nat], steps = 4\<rparr> = of_nat (2 ^ 31)"
    by (rule FindIndex_replicate) simp_all
  then have "sint (FindIndex 1 \<lparr>data = 0, elems = replicate (2 ^ 31) 0 @ [1 :: nat], steps = 4\<rparr>) = - (2 ^ 31)"
    by (simp only: narrow_int) simp
  moreover have "(replicate (2 ^ 31) 0 @ [1 :: nat]) ! (2 ^ 31) = 1"
    by (simp add: nth_append)
  ultimately show ?thesis by simp
qed

text \<open>
  C9, as the code has it. In a vector of at most \<open>2 ^ 31\<close> elements, \<open>FindIndex(v)\<close>
  is -1 exactly when no element equals \<open>v\<close>; a result for a present \<open>v\<close> is not
  negative, is below the size and is an index of \<open>v\<close>; so the result is at least 0
  if and only if some element equals \<open>v\<close>.
\<close>

theorem FindIndex_sign:
  assumes "length (elems v) \<le> 2 ^ 31"
  shows "(FindIndex item v = - 1) = (item \<notin> set (elems v)) \<and>
    (item \<in> set (elems v) \<longrightarrow>
       0 \<le> sint (FindIndex item v) \<and> sint (FindIndex item v) < int (length (elems v)) \<and>
       elems v ! nat (sint (FindIndex item v)) = item) \<and>
    (0 \<le> sint (FindIndex item v)) = (item \<in> set (elems v))"
proof (cases "item \<in> set (elems v)")
  case False
  then have "FindIndex item v = - 1" by (simp add: FindIndex_def std_find_absent)
  with False show ?thesis by simp
next
  case True
  then have ne: "std_find (elems v) item \<noteq> length (elems v)" by (simp add: std_find_absent)
  with std_find_le [of "elems v" item] have lt: "std_find (elems v) item < length (elems v)" by simp
  with assms have small: "std_find (elems v) item < 2 ^ 31" by simp
  have "FindIndex item v = of_nat (std_find (elems v) item)" using ne by (simp add: FindIndex_def)
  then have s: "sint (FindIndex item v) = int (std_find (elems v) item)"
    using small by (simp add: narrow_int_small)
  then have "FindIndex item v \<noteq> - 1" by auto
  with s lt True std_find_hit [OF True] show ?thesis by simp
qed

theorem FindIndex_sign_witness:
  "length (elems \<lparr>data = 16, elems = [1, 2, 3, 2 :: int], steps = 8\<rparr>) \<le> 2 ^ 31 \<and>
   0 \<le> sint (FindIndex 3 \<lparr>data = 16, elems = [1, 2, 3, 2 :: int], steps = 8\<rparr>) \<and>
   \<not> 0 \<le> sint (FindIndex 7 \<lparr>data = 16, elems = [1, 2, 3, 2 :: int], steps = 8\<rparr>)"
proof -
  have h: "length (elems \<lparr>data = 16, elems = [1, 2, 3, 2 :: int], steps = 8\<rparr>) \<le> 2 ^ 31" by simp
  show ?thesis using h FindIndex_sign [OF h, of 3] FindIndex_sign [OF h, of 7] by simp
qed

text \<open>
  C9 as stated fails in a larger vector: after \<open>2 ^ 32 - 1\<close> zeros a one is present,
  and \<open>FindIndex(1)\<close> returns -1.
\<close>

theorem FindIndex_sign_counterexample:
  "1 \<in> set (elems \<lparr>data = 0, elems = replicate (2 ^ 32 - 1) 0 @ [1 :: nat], steps = 4\<rparr>) \<and>
   FindIndex 1 \<lparr>data = 0, elems = replicate (2 ^ 32 - 1) 0 @ [1 :: nat], steps = 4\<rparr> = - 1 \<and>
   \<not> 0 \<le> sint (FindIndex 1 \<lparr>data = 0, elems = replicate (2 ^ 32 - 1) 0 @ [1 :: nat], steps = 4\<rparr>)"
proof -
  have "FindIndex 1 \<lparr>data = 0, elems = replicate (2 ^ 32 - 1) 0 @ [1 :: nat], steps = 4\<rparr> = of_nat (2 ^ 32 - 1)"
    by (rule FindIndex_replicate) simp_all
  then have "FindIndex 1 \<lparr>data = 0, elems = replicate (2 ^ 32 - 1) 0 @ [1 :: nat], steps = 4\<rparr> = - 1"
    by simp
  then show ?thesis by simp
qed

lemma size_vec_unat: "length (elems v) < 2 ^ 64 \<Longrightarrow> unat (size_vec v) = length (elems v)"
  by (simp add: size_vec_def unat_of_nat)

text \<open>
  C6, as the code has it. When the size \<open>n\<close> plus the count \<open>c\<close> is at most
  \<open>max_size()\<close> and the allocator has the storage, \<open>grow\<close> extends the vector to
  \<open>n + c\<close> elements, the \<open>c\<close> new ones value-initialised, and returns the address of
  index \<open>n\<close>, which holds the first new element when \<open>c\<close> is not 0.
\<close>

theorem grow_extends:
  assumes "length (elems vec) + unat num \<le> unat max_size"
  shows "\<exists>vec'. grow dflt max_size (Some d') vec num = Inr (vec', Begin vec' + int (length (elems vec))) \<and>
    elems vec' = elems vec @ replicate (unat num) dflt \<and>
    length (elems vec') = length (elems vec) + unat num \<and>
    (0 < unat num \<longrightarrow> deref vec' (Begin vec' + int (length (elems vec))) = Some dflt)"
proof -
  have m: "unat max_size < 2 ^ 64" using unsigned_less [of max_size] by simp
  have n: "length (elems vec) < 2 ^ 64" using assms m by simp
  have s: "unat (size_vec vec) = length (elems vec)" using n by (rule size_vec_unat)
  have u: "unat (size_vec vec + num) = length (elems vec) + unat num"
    using assms m s by (simp add: unat_word_ariths)
  have p: "uint (size_vec vec) = int (length (elems vec))"
    using s by (metis uint_nat)
  define vec' where "vec' = (if unat num = 0 then vec\<lparr>elems := take (length (elems vec)) (elems vec)\<rparr>
      else vec\<lparr>data := d', elems := elems vec @ replicate (unat num) dflt\<rparr>)"
  have fits: "\<not> unat max_size < length (elems vec) + unat num"
    using assms by simp
  have rs: "resize dflt max_size (Some d') (length (elems vec) + unat num) vec = Inr vec'"
  proof (cases "unat num = 0")
    case True
    then show ?thesis by (simp add: resize_def vec'_def)
  next
    case False
    then have "\<not> length (elems vec) + unat num \<le> length (elems vec)" by simp
    with fits False show ?thesis by (simp add: resize_def vec'_def)
  qed
  have "grow dflt max_size (Some d') vec num = Inr (vec', data vec' + uint (size_vec vec))"
    by (simp add: grow_def Let_def u rs)
  then have run: "grow dflt max_size (Some d') vec num = Inr (vec', Begin vec' + int (length (elems vec)))"
    by (simp only: p Begin_def)
  have el: "elems vec' = elems vec @ replicate (unat num) dflt"
    by (simp add: vec'_def)
  have len: "length (elems vec') = length (elems vec) + unat num"
    by (simp add: el)
  have rd: "deref vec' (Begin vec' + int (length (elems vec))) = Some dflt" if "0 < unat num"
  proof -
    have "int (length (elems vec)) < int (length (elems vec'))"
      using that len by linarith
    then show ?thesis
      by (simp add: deref_def Begin_def) (simp add: el nth_append)
  qed
  from rd have rd': "0 < unat num \<longrightarrow> deref vec' (Begin vec' + int (length (elems vec))) = Some dflt"
    by simp
  show ?thesis
    by (intro exI [of _ vec'] conjI) (fact run, fact el, fact len, fact rd')
qed

theorem grow_extends_witness:
  "length (elems \<lparr>data = 16, elems = [7 :: int]\<rparr>) + unat (2 :: 64 word) \<le> unat (1000 :: 64 word) \<and>
   grow 0 1000 (Some 32) \<lparr>data = 16, elems = [7 :: int]\<rparr> 2
     = Inr (\<lparr>data = 32, elems = [7, 0, 0]\<rparr>, 33)"
proof -
  have h: "length (elems \<lparr>data = 16, elems = [7 :: int]\<rparr>) + unat (2 :: 64 word) \<le> unat (1000 :: 64 word)"
    by simp
  have "unat (2 :: 64 word) = 2" by simp
  moreover have "replicate 2 (0 :: int) = [0, 0]" by (simp add: numeral_2_eq_2)
  ultimately have r: "replicate (unat (2 :: 64 word)) (0 :: int) = [0, 0]" by (simp only:)
  from grow_extends [OF h, of 0 32] obtain vec' where
    "grow 0 1000 (Some 32) \<lparr>data = 16, elems = [7 :: int]\<rparr> 2
       = Inr (vec', Begin vec' + int (length (elems \<lparr>data = 16, elems = [7 :: int]\<rparr>)))"
    "elems vec' = elems \<lparr>data = 16, elems = [7 :: int]\<rparr> @ replicate (unat (2 :: 64 word)) 0"
    by blast
  then show ?thesis using h r
    by (simp add: grow_def size_vec_def resize_def Begin_def)
qed

text \<open>
  C6 as stated fails in two ways on a one-element vector whose \<open>max_size()\<close> is
  \<open>2 ^ 61 - 1\<close>. Growing it by \<open>2 ^ 64 - 1\<close> wraps \<open>pos + num\<close> to 0: the vector
  is resized to no element, and the returned address is past the end. Growing it by
  \<open>2 ^ 62\<close> asks for more than \<open>max_size()\<close>: \<open>resize\<close> throws and nothing is
  returned.
\<close>

theorem grow_counterexample:
  "grow 0 (2 ^ 61 - 1) (Some 32) \<lparr>data = 16, elems = [7 :: int]\<rparr> (- 1)
     = Inr (\<lparr>data = 16, elems = []\<rparr>, 17) \<and>
   grow 0 (2 ^ 61 - 1) (Some 32) \<lparr>data = 16, elems = [7 :: int]\<rparr> (2 ^ 62) = Inl LengthError"
  by (simp add: grow_def size_vec_def resize_def)

text \<open>
  The loop of \<open>Clear\<close>. With fewer than \<open>2 ^ 32\<close> elements, the non-null ones distinct
  and alive, the counter visits every slot once, front to back, and the loop ends. From
  \<open>2 ^ 32\<close> elements on every value of the counter is below the size: while the
  teardown is defined the loop goes on, so it never ends.
\<close>

lemma counter_index: "unat (ucast (i :: 32 word) :: 64 word) = unat i"
proof -
  have "unat i < 2 ^ 32" using unsigned_less [of i] by simp
  then have "unat i < 2 ^ 64" by simp
  then show ?thesis by (simp add: unsigned_ucast_eq take_bit_nat_eq_self)
qed

lemma counter_guard:
  "length (elems v) < 2 ^ 64 \<Longrightarrow> ((ucast (i :: 32 word) :: 64 word) < size_vec v) = (unat i < length (elems v))"
  by (simp add: word_less_nat_alt size_vec_unat counter_index)

lemma counter_step: "unat (i :: 32 word) < n \<Longrightarrow> n < 2 ^ 32 \<Longrightarrow> unat (i + 1) = Suc (unat i)"
  by (simp add: unat_word_ariths)

lemma Clear_loop_owned:
  assumes td: "\<And>p h. td p h =
      (if p = 0 then Inr h
       else if p \<in> live h then Inr (h\<lparr>live := live h - {p}, events := events h @ [ev p]\<rparr>)
       else Inl UndefinedBehaviour)"
    and small: "length (elems v) < 2 ^ 32"
    and "unat i \<le> length (elems v)"
    and "distinct (filter (\<lambda>p. p \<noteq> 0) (drop (unat i) (elems v)))"
    and "set (filter (\<lambda>p. p \<noteq> 0) (drop (unat i) (elems v))) \<subseteq> live h"
  shows "Clear_loop td v i h =
    Some (Inr (h\<lparr>live := live h - set (filter (\<lambda>p. p \<noteq> 0) (drop (unat i) (elems v))),
                 events := events h @ map ev (filter (\<lambda>p. p \<noteq> 0) (drop (unat i) (elems v)))\<rparr>))"
  using assms(3-)
proof (induction "length (elems v) - unat i" arbitrary: i h)
  case 0
  then have "unat i = length (elems v)" by simp
  moreover have "length (elems v) < 2 ^ 64" using small by simp
  ultimately show ?case
    by (subst Clear_loop.simps) (simp add: counter_guard)
next
  case (Suc k)
  then have lt: "unat i < length (elems v)" by simp
  have big: "length (elems v) < 2 ^ 64" using small by simp
  have st: "unat (i + 1) = Suc (unat i)" using lt small by (rule counter_step)
  let ?x = "elems v ! unat i"
  let ?rest = "drop (unat (i + 1)) (elems v)"
  have dr: "drop (unat i) (elems v) = ?x # ?rest"
    using lt st by (simp add: Cons_nth_drop_Suc)
  have unfold: "Clear_loop td v i h =
      (case td ?x h of Inl e \<Rightarrow> Some (Inl e) | Inr h' \<Rightarrow> Clear_loop td v (i + 1) h')"
    using lt big by (subst Clear_loop.simps) (simp add: counter_guard counter_index)
  have k: "k = length (elems v) - unat (i + 1)" using Suc.hyps(2) st by simp
  have le: "unat (i + 1) \<le> length (elems v)" using lt st by simp
  show ?case
  proof (cases "?x = 0")
    case True
    have d: "distinct (filter (\<lambda>p. p \<noteq> 0) ?rest)" using Suc.prems(2) True by (simp add: dr)
    have s: "set (filter (\<lambda>p. p \<noteq> 0) ?rest) \<subseteq> live h" using Suc.prems(3) True by (simp add: dr)
    have "td ?x h = Inr h" using True by (simp add: td)
    with unfold have "Clear_loop td v i h = Clear_loop td v (i + 1) h" by simp
    also note Suc.hyps(1) [OF k le d s]
    finally show ?thesis using True by (simp add: dr)
  next
    case False
    have inl: "?x \<in> live h" using Suc.prems(3) False by (simp add: dr)
    have notin: "?x \<notin> set (filter (\<lambda>p. p \<noteq> 0) ?rest)" using Suc.prems(2) False by (simp add: dr)
    let ?h' = "h\<lparr>live := live h - {?x}, events := events h @ [ev ?x]\<rparr>"
    have d: "distinct (filter (\<lambda>p. p \<noteq> 0) ?rest)" using Suc.prems(2) False by (simp add: dr)
    have s: "set (filter (\<lambda>p. p \<noteq> 0) ?rest) \<subseteq> live ?h'"
      using Suc.prems(3) False notin by (auto simp: dr)
    have "td ?x h = Inr ?h'" using False inl by (simp add: td)
    with unfold have "Clear_loop td v i h = Clear_loop td v (i + 1) ?h'" by simp
    also note Suc.hyps(1) [OF k le d s]
    finally have r: "Clear_loop td v i h =
        Some (Inr (?h'\<lparr>live := live ?h' - set (filter (\<lambda>p. p \<noteq> 0) ?rest),
                       events := events ?h' @ map ev (filter (\<lambda>p. p \<noteq> 0) ?rest)\<rparr>))" .
    have l: "\<And>A (x :: ptr) S. A - {x} - S = A - insert x S" by auto
    show ?thesis using False by (simp add: r dr l)
  qed
qed

lemma Clear_loop_forever:
  assumes big: "2 ^ 32 \<le> length (elems v)" "length (elems v) < 2 ^ 64"
    and ok: "\<forall>x \<in> set (elems v). \<forall>w. \<exists>w'. td x w = Inr w'"
  shows "Clear_loop td v i w = None"
proof (rule ccontr)
  assume "Clear_loop td v i w \<noteq> None"
  then obtain y where run: "Clear_loop td v i w = Some y" by auto
  have "\<not> (2 ^ 32 \<le> length (elems v) \<and> length (elems v) < 2 ^ 64 \<and>
      (\<forall>x \<in> set (elems v). \<forall>w. \<exists>w'. td x w = Inr w'))"
    apply (rule Clear_loop.raw_induct
      [where P = "\<lambda>td v i w y. \<not> (2 ^ 32 \<le> length (elems v) \<and> length (elems v) < 2 ^ 64 \<and>
          (\<forall>x \<in> set (elems v). \<forall>w. \<exists>w'. td x w = Inr w'))", OF _ run])
    subgoal premises prems for f td' v' i' w' y'
    proof
      assume a: "2 ^ 32 \<le> length (elems v') \<and> length (elems v') < 2 ^ 64 \<and>
          (\<forall>x \<in> set (elems v'). \<forall>w. \<exists>w'. td' x w = Inr w')"
      have "unat i' < 2 ^ 32" using unsigned_less [of i'] by simp
      with a have lt: "unat i' < length (elems v')" by simp
      then have "elems v' ! unat i' \<in> set (elems v')" by simp
      with a obtain w'' where t: "td' (elems v' ! unat i') w' = Inr w''" by blast
      from a lt prems(2) t have "f td' v' (i' + 1) w'' = Some y'"
        by (simp add: counter_guard counter_index)
      from prems(1) [OF this] a show False by simp
    qed
    done
  with big ok show False by simp
qed


text \<open>How often a pointer is in the trace of a teardown.\<close>

lemma count_Released: "count_list (map Released ps) (Released p) = count_list ps p"
  by (induction ps) auto

lemma count_Destroyed: "count_list (map Destroyed ps) (Destroyed p) = count_list ps p"
  by (induction ps) auto

lemma count_distinct: "distinct ps \<Longrightarrow> p \<in> set ps \<Longrightarrow> count_list ps p = 1"
  by (induction ps) auto

lemma AutoFree_Clear_run:
  assumes "length (elems v) < 2 ^ 32"
    and "distinct (filter (\<lambda>p. p \<noteq> 0) (elems v))"
    and "set (filter (\<lambda>p. p \<noteq> 0) (elems v)) \<subseteq> live h"
  shows "AutoFree_Clear v h =
    Some (Inr (clear v, h\<lparr>live := live h - set (filter (\<lambda>p. p \<noteq> 0) (elems v)),
                             events := events h @ map Released (filter (\<lambda>p. p \<noteq> 0) (elems v))\<rparr>))"
proof -
  have "Clear_loop free_op v 0 h =
      Some (Inr (h\<lparr>live := live h - set (filter (\<lambda>p. p \<noteq> 0) (drop (unat (0 :: 32 word)) (elems v))),
                   events := events h @ map Released (filter (\<lambda>p. p \<noteq> 0) (drop (unat (0 :: 32 word)) (elems v)))\<rparr>))"
    using assms by (intro Clear_loop_owned) (simp_all add: free_op_def)
  then show ?thesis by (simp add: AutoFree_Clear_def)
qed

lemma AutoDelete_Clear_run:
  assumes "length (elems v) < 2 ^ 32"
    and "distinct (filter (\<lambda>p. p \<noteq> 0) (elems v))"
    and "set (filter (\<lambda>p. p \<noteq> 0) (elems v)) \<subseteq> live h"
  shows "AutoDelete_Clear v h =
    Some (Inr (clear v, h\<lparr>live := live h - set (filter (\<lambda>p. p \<noteq> 0) (elems v)),
                             events := events h @ map Destroyed (filter (\<lambda>p. p \<noteq> 0) (elems v))\<rparr>))"
proof -
  have "Clear_loop delete_op v 0 h =
      Some (Inr (h\<lparr>live := live h - set (filter (\<lambda>p. p \<noteq> 0) (drop (unat (0 :: 32 word)) (elems v))),
                   events := events h @ map Destroyed (filter (\<lambda>p. p \<noteq> 0) (drop (unat (0 :: 32 word)) (elems v)))\<rparr>))"
    using assms by (intro Clear_loop_owned) (simp_all add: delete_op_def)
  then show ?thesis by (simp add: AutoDelete_Clear_def)
qed

text \<open>
  C4, as the code has it. The stored non-null pointers each own a live object of their
  own, as the data model has it. For a stored sequence of fewer than \<open>2 ^ 32\<close>
  pointers, \<open>Clear()\<close> and the destructor of either owning vector end, and every
  pointer that was stored and not null has had the teardown of the variant (\<open>free\<close>,
  respectively \<open>delete\<close>) invoked on it exactly once: its object is no longer alive.
  The teardown of a null pointer changes nothing. The vector is empty afterwards, and
  a further append followed by \<open>Clear()\<close> tears down the appended pointer and leaves
  it empty again.
\<close>

theorem Clear_tears_down_every_pointer_once:
  assumes "length (elems v) < 2 ^ 32"
    and "distinct (filter (\<lambda>p. p \<noteq> 0) (elems v))"
    and "set (filter (\<lambda>p. p \<noteq> 0) (elems v)) \<subseteq> live h"
  shows "AutoFree_Clear v h =
      Some (Inr (clear v, h\<lparr>live := live h - set (filter (\<lambda>p. p \<noteq> 0) (elems v)),
                               events := events h @ map Released (filter (\<lambda>p. p \<noteq> 0) (elems v))\<rparr>)) \<and>
    AutoDelete_Clear v h =
      Some (Inr (clear v, h\<lparr>live := live h - set (filter (\<lambda>p. p \<noteq> 0) (elems v)),
                               events := events h @ map Destroyed (filter (\<lambda>p. p \<noteq> 0) (elems v))\<rparr>)) \<and>
    AutoFree_destroy v h =
      Some (Inr (h\<lparr>live := live h - set (filter (\<lambda>p. p \<noteq> 0) (elems v)),
                     events := events h @ map Released (filter (\<lambda>p. p \<noteq> 0) (elems v))\<rparr>)) \<and>
    AutoDelete_destroy v h =
      Some (Inr (h\<lparr>live := live h - set (filter (\<lambda>p. p \<noteq> 0) (elems v)),
                     events := events h @ map Destroyed (filter (\<lambda>p. p \<noteq> 0) (elems v))\<rparr>)) \<and>
    (\<forall>p \<in> set (elems v). p \<noteq> 0 \<longrightarrow>
       count_list (map Released (filter (\<lambda>p. p \<noteq> 0) (elems v))) (Released p) = 1 \<and>
       count_list (map Destroyed (filter (\<lambda>p. p \<noteq> 0) (elems v))) (Destroyed p) = 1) \<and>
    free_op 0 h = Inr h \<and> delete_op 0 h = Inr h \<and>
    elems (clear v) = [] \<and> length (elems (clear v)) = 0 \<and>
    (q = 0 \<or> q \<in> live h' \<longrightarrow>
       AutoFree_Clear (emplace_back d' q (clear v)) h' =
         Some (Inr (clear (emplace_back d' q (clear v)),
                    if q = 0 then h' else h'\<lparr>live := live h' - {q}, events := events h' @ [Released q]\<rparr>)) \<and>
       AutoDelete_Clear (emplace_back d' q (clear v)) h' =
         Some (Inr (clear (emplace_back d' q (clear v)),
                    if q = 0 then h' else h'\<lparr>live := live h' - {q}, events := events h' @ [Destroyed q]\<rparr>)) \<and>
       elems (clear (emplace_back d' q (clear v))) = [])"
proof -
  note r1 = AutoFree_Clear_run [OF assms]
  note r2 = AutoDelete_Clear_run [OF assms]
  have d1: "AutoFree_destroy v h =
      Some (Inr (h\<lparr>live := live h - set (filter (\<lambda>p. p \<noteq> 0) (elems v)),
                     events := events h @ map Released (filter (\<lambda>p. p \<noteq> 0) (elems v))\<rparr>))"
    by (simp add: AutoFree_destroy_def r1)
  have d2: "AutoDelete_destroy v h =
      Some (Inr (h\<lparr>live := live h - set (filter (\<lambda>p. p \<noteq> 0) (elems v)),
                     events := events h @ map Destroyed (filter (\<lambda>p. p \<noteq> 0) (elems v))\<rparr>))"
    by (simp add: AutoDelete_destroy_def r2)
  have once: "\<forall>p \<in> set (elems v). p \<noteq> 0 \<longrightarrow>
       count_list (map Released (filter (\<lambda>p. p \<noteq> 0) (elems v))) (Released p) = 1 \<and>
       count_list (map Destroyed (filter (\<lambda>p. p \<noteq> 0) (elems v))) (Destroyed p) = 1"
    using assms(2) by (simp add: count_Released count_Destroyed count_distinct)
  have null: "free_op 0 h = Inr h \<and> delete_op 0 h = Inr h"
    by (simp add: free_op_def delete_op_def)
  have empty: "elems (clear v) = [] \<and> length (elems (clear v)) = 0"
    by (simp add: clear_def)
  have cycle: "AutoFree_Clear (emplace_back d' q (clear v)) h' =
         Some (Inr (clear (emplace_back d' q (clear v)),
                    if q = 0 then h' else h'\<lparr>live := live h' - {q}, events := events h' @ [Released q]\<rparr>)) \<and>
       AutoDelete_Clear (emplace_back d' q (clear v)) h' =
         Some (Inr (clear (emplace_back d' q (clear v)),
                    if q = 0 then h' else h'\<lparr>live := live h' - {q}, events := events h' @ [Destroyed q]\<rparr>)) \<and>
       elems (clear (emplace_back d' q (clear v))) = []"
    if q: "q = 0 \<or> q \<in> live h'"
  proof -
    have el: "elems (emplace_back d' q (clear v)) = [q]"
      by (simp add: emplace_back_def clear_def)
    have one: "length (elems (emplace_back d' q (clear v))) < 2 ^ 32"
      by (simp add: el)
    have dist: "distinct (filter (\<lambda>p. p \<noteq> 0) (elems (emplace_back d' q (clear v))))"
      by (simp add: el)
    have sub: "set (filter (\<lambda>p. p \<noteq> 0) (elems (emplace_back d' q (clear v)))) \<subseteq> live h'"
      using q by (auto simp: el)
    have c1: "AutoFree_Clear (emplace_back d' q (clear v)) h' =
         Some (Inr (clear (emplace_back d' q (clear v)),
                    if q = 0 then h' else h'\<lparr>live := live h' - {q}, events := events h' @ [Released q]\<rparr>))"
      using AutoFree_Clear_run [OF one dist sub] by (simp add: el)
    have c2: "AutoDelete_Clear (emplace_back d' q (clear v)) h' =
         Some (Inr (clear (emplace_back d' q (clear v)),
                    if q = 0 then h' else h'\<lparr>live := live h' - {q}, events := events h' @ [Destroyed q]\<rparr>))"
      using AutoDelete_Clear_run [OF one dist sub] by (simp add: el)
    have "elems (clear (emplace_back d' q (clear v))) = []"
      by (simp add: clear_def)
    with c1 c2 show ?thesis by (intro conjI)
  qed
  then have cycle': "q = 0 \<or> q \<in> live h' \<longrightarrow>
       AutoFree_Clear (emplace_back d' q (clear v)) h' =
         Some (Inr (clear (emplace_back d' q (clear v)),
                    if q = 0 then h' else h'\<lparr>live := live h' - {q}, events := events h' @ [Released q]\<rparr>)) \<and>
       AutoDelete_Clear (emplace_back d' q (clear v)) h' =
         Some (Inr (clear (emplace_back d' q (clear v)),
                    if q = 0 then h' else h'\<lparr>live := live h' - {q}, events := events h' @ [Destroyed q]\<rparr>)) \<and>
       elems (clear (emplace_back d' q (clear v))) = []"
    by (rule impI)
  from null have n1: "free_op 0 h = Inr h" and n2: "delete_op 0 h = Inr h" by simp_all
  from empty have e1: "elems (clear v) = []" and e2: "length (elems (clear v)) = 0" by simp_all
  show ?thesis
    by (intro conjI) (fact r1, fact r2, fact d1, fact d2, fact once, fact n1, fact n2, fact e1, fact e2, fact cycle')
qed

theorem Clear_tears_down_every_pointer_once_witness:
  "length (elems \<lparr>data = 16, elems = [5, 0, 7 :: int], steps = 4\<rparr>) < 2 ^ 32 \<and>
   distinct (filter (\<lambda>p. p \<noteq> 0) (elems \<lparr>data = 16, elems = [5, 0, 7 :: int], steps = 4\<rparr>)) \<and>
   set (filter (\<lambda>p. p \<noteq> 0) (elems \<lparr>data = 16, elems = [5, 0, 7 :: int], steps = 4\<rparr>))
     \<subseteq> live \<lparr>live = {5, 7, 9}, events = []\<rparr> \<and>
   AutoFree_Clear \<lparr>data = 16, elems = [5, 0, 7], steps = 4\<rparr> \<lparr>live = {5, 7, 9}, events = []\<rparr>
     = Some (Inr (\<lparr>data = 16, elems = [], steps = 4\<rparr>,
                  \<lparr>live = {9}, events = [Released 5, Released 7]\<rparr>)) \<and>
   AutoDelete_Clear \<lparr>data = 16, elems = [5, 0, 7], steps = 4\<rparr> \<lparr>live = {5, 7, 9}, events = []\<rparr>
     = Some (Inr (\<lparr>data = 16, elems = [], steps = 4\<rparr>,
                  \<lparr>live = {9}, events = [Destroyed 5, Destroyed 7]\<rparr>))"
proof -
  have h1: "length (elems \<lparr>data = 16, elems = [5, 0, 7 :: int], steps = 4 :: 32 word\<rparr>) < 2 ^ 32"
    by simp
  have h2: "distinct (filter (\<lambda>p. p \<noteq> 0) (elems \<lparr>data = 16, elems = [5, 0, 7 :: int], steps = 4 :: 32 word\<rparr>))"
    by simp
  have h3: "set (filter (\<lambda>p. p \<noteq> 0) (elems \<lparr>data = 16, elems = [5, 0, 7 :: int], steps = 4 :: 32 word\<rparr>))
     \<subseteq> live \<lparr>live = {5, 7, 9}, events = []\<rparr>"
    by simp
  have s: "{5, 7, 9} - {5, 7 :: int} = {9}" by auto
  show ?thesis
    using h1 h2 h3 Clear_tears_down_every_pointer_once [OF h1 h2 h3]
    by (simp add: clear_def s)
qed

text \<open>
  C4 as stated fails on \<open>2 ^ 32\<close> stored pointers (here null pointers): the \<open>uint\<close>
  counter wraps before it reaches the size, and neither \<open>Clear()\<close> returns.
\<close>

theorem Clear_counter_wraps_counterexample:
  "AutoFree_Clear \<lparr>data = 16, elems = replicate (2 ^ 32) 0, steps = 4\<rparr> \<lparr>live = {}, events = []\<rparr> = None \<and>
   AutoDelete_Clear \<lparr>data = 16, elems = replicate (2 ^ 32) 0, steps = 4\<rparr> \<lparr>live = {}, events = []\<rparr> = None"
proof -
  have big: "2 ^ 32 \<le> length (elems \<lparr>data = 16, elems = replicate (2 ^ 32) (0 :: int), steps = 4 :: 32 word\<rparr>)"
    "length (elems \<lparr>data = 16, elems = replicate (2 ^ 32) (0 :: int), steps = 4 :: 32 word\<rparr>) < 2 ^ 64"
    by simp_all
  have f: "\<forall>x \<in> set (elems \<lparr>data = 16, elems = replicate (2 ^ 32) (0 :: int), steps = 4 :: 32 word\<rparr>).
      \<forall>w. \<exists>w'. free_op x w = Inr w'"
    by (simp add: free_op_def)
  have d: "\<forall>x \<in> set (elems \<lparr>data = 16, elems = replicate (2 ^ 32) (0 :: int), steps = 4 :: 32 word\<rparr>).
      \<forall>w. \<exists>w'. delete_op x w = Inr w'"
    by (simp add: delete_op_def)
  have "Clear_loop free_op \<lparr>data = 16, elems = replicate (2 ^ 32) 0, steps = 4 :: 32 word\<rparr> 0
      \<lparr>live = {}, events = []\<rparr> = None"
    using big f by (rule Clear_loop_forever)
  moreover have "Clear_loop delete_op \<lparr>data = 16, elems = replicate (2 ^ 32) 0, steps = 4 :: 32 word\<rparr> 0
      \<lparr>live = {}, events = []\<rparr> = None"
    using big d by (rule Clear_loop_forever)
  ultimately show ?thesis by (simp add: AutoFree_Clear_def AutoDelete_Clear_def)
qed

text \<open>The loop of \<open>Clear\<close> reads nothing of the vector but its elements.\<close>

lemma Clear_loop_elems_Some:
  fixes v :: "('a, 'm) std_vector_scheme"
  assumes run: "Clear_loop td v i w = Some y"
  shows "\<forall>v' :: ('a, 'm) std_vector_scheme. elems v' = elems v \<longrightarrow> Clear_loop td v' i w = Some y"
  apply (rule Clear_loop.raw_induct
      [where P = "\<lambda>td (v :: ('a, 'm) std_vector_scheme) i w y.
         \<forall>v' :: ('a, 'm) std_vector_scheme. elems v' = elems v \<longrightarrow> Clear_loop td v' i w = Some y", OF _ run])
  subgoal premises prems for f td v i w y
  proof (intro allI impI)
    fix v' :: "('a, 'm) std_vector_scheme"
    assume e: "elems v' = elems v"
    have sz: "size_vec v' = size_vec v" using e by (simp add: size_vec_def)
    show "Clear_loop td v' i w = Some y"
    proof (cases "(ucast i :: 64 word) < size_vec v")
      case True
      show ?thesis
      proof (cases "td (elems v ! unat (ucast i :: 64 word)) w")
        case (Inl err)
        with True prems(2) have "y = Inl err" by simp
        with True sz e Inl show ?thesis by (subst Clear_loop.simps) simp
      next
        case (Inr w')
        with True prems(2) have "f td v (i + 1) w' = Some y" by simp
        from prems(1) [OF this] e have "Clear_loop td v' (i + 1) w' = Some y" by blast
        with True sz e Inr show ?thesis by (subst Clear_loop.simps) simp
      qed
    next
      case False
      with prems(2) have "y = Inr w" by simp
      with False sz show ?thesis by (subst Clear_loop.simps) simp
    qed
  qed
  done

lemma Clear_loop_elems:
  fixes v v' :: "('a, 'm) std_vector_scheme"
  assumes "elems v' = elems v"
  shows "Clear_loop td v' i w = Clear_loop td v i w"
proof (cases "Clear_loop td v i w")
  case (Some y)
  with Clear_loop_elems_Some [OF Some] assms show ?thesis by simp
next
  case None
  show ?thesis
  proof (cases "Clear_loop td v' i w")
    case None': None
    with None show ?thesis by simp
  next
    case (Some y)
    from Clear_loop_elems_Some [OF Some] assms have "Clear_loop td v i w = Some y" by simp
    with None show ?thesis by simp
  qed
qed

text \<open>
  C7. Copy construction and copy assignment between vectors of any two growth-step
  parameters yield the elements of the source, in the same number, and leave the
  parameter of the receiver alone. No operation depends on the parameter: run on a
  vector whose parameter was changed to \<open>s\<close>, every operation returns the same value
  and the same vector up to the parameter.
\<close>

theorem growth_step_unobservable:
  "elems (copy_construct s d' other) = elems other \<and>
   length (elems (copy_construct s d' other)) = length (elems other) \<and>
   steps (copy_construct s d' other) = s \<and>
   elems (assign d' other this) = elems other \<and>
   length (elems (assign d' other this)) = length (elems other) \<and>
   steps (assign d' other this) = steps this \<and>
   copy_construct s d' (other\<lparr>steps := x\<rparr>) = copy_construct s d' other \<and>
   assign d' (other\<lparr>steps := x\<rparr>) this = assign d' other this \<and>
   FindIndex item (v\<lparr>steps := s\<rparr>) = FindIndex item v \<and>
   Include d' item (v\<lparr>steps := s\<rparr>) = (fst (Include d' item v)\<lparr>steps := s\<rparr>, snd (Include d' item v)) \<and>
   Insert asserts (v\<lparr>steps := s\<rparr>) p
     = map_sum id (\<lambda>(v', h). (v'\<lparr>steps := s\<rparr>, h)) (Insert asserts v p) \<and>
   Begin (v\<lparr>steps := s\<rparr>) = Begin v \<and> End (v\<lparr>steps := s\<rparr>) = End v \<and>
   deref (v\<lparr>steps := s\<rparr>) p = deref v p \<and>
   grow fresh max_size alloc (v\<lparr>steps := s\<rparr>) num
     = map_sum id (\<lambda>(v', h). (v'\<lparr>steps := s\<rparr>, h)) (grow fresh max_size alloc v num) \<and>
   AutoFree_Clear (u\<lparr>steps := s\<rparr>) w
     = map_option (map_sum id (\<lambda>(u', w'). (u'\<lparr>steps := s\<rparr>, w'))) (AutoFree_Clear u w) \<and>
   AutoDelete_Clear (u\<lparr>steps := s\<rparr>) w
     = map_option (map_sum id (\<lambda>(u', w'). (u'\<lparr>steps := s\<rparr>, w'))) (AutoDelete_Clear u w)"
proof -
  have copy: "elems (copy_construct s d' other) = elems other \<and>
      length (elems (copy_construct s d' other)) = length (elems other) \<and>
      steps (copy_construct s d' other) = s"
    by (simp add: copy_construct_def)
  have asg: "elems (assign d' other this) = elems other \<and>
      length (elems (assign d' other this)) = length (elems other) \<and>
      steps (assign d' other this) = steps this"
    by (simp add: assign_def)
  have src: "copy_construct s d' (other\<lparr>steps := x\<rparr>) = copy_construct s d' other \<and>
      assign d' (other\<lparr>steps := x\<rparr>) this = assign d' other this"
    by (simp add: copy_construct_def assign_def)
  have fi: "FindIndex item (v\<lparr>steps := s\<rparr>) = FindIndex item v"
    by (simp add: FindIndex_def)
  have inc: "Include d' item (v\<lparr>steps := s\<rparr>)
      = (fst (Include d' item v)\<lparr>steps := s\<rparr>, snd (Include d' item v))"
    by (simp add: Include_def emplace_back_def)
  have ins: "Insert asserts (v\<lparr>steps := s\<rparr>) p
      = map_sum id (\<lambda>(v', h). (v'\<lparr>steps := s\<rparr>, h)) (Insert asserts v p)"
    by (simp add: Insert_def Let_def Begin_def End_def std_insert_pos_def)
  have be: "Begin (v\<lparr>steps := s\<rparr>) = Begin v \<and> End (v\<lparr>steps := s\<rparr>) = End v \<and>
      deref (v\<lparr>steps := s\<rparr>) p = deref v p"
    by (simp add: Begin_def End_def deref_def)
  have rs: "resize fresh max_size alloc n (v\<lparr>steps := s\<rparr>)
      = map_sum id (\<lambda>v'. v'\<lparr>steps := s\<rparr>) (resize fresh max_size alloc n v)" for n
    by (simp add: resize_def split: option.split)
  have gr: "grow fresh max_size alloc (v\<lparr>steps := s\<rparr>) num
      = map_sum id (\<lambda>(v', h). (v'\<lparr>steps := s\<rparr>, h)) (grow fresh max_size alloc v num)"
    by (simp add: grow_def Let_def size_vec_def rs split: sum.split)
  have "elems (u\<lparr>steps := s\<rparr>) = elems u" by simp
  then have loop: "Clear_loop td (u\<lparr>steps := s\<rparr>) 0 w = Clear_loop td u 0 w"
    for td :: "ptr \<Rightarrow> heap \<Rightarrow> error + heap"
    by (rule Clear_loop_elems)
  have cl: "clear (u\<lparr>steps := s\<rparr>) = (clear u)\<lparr>steps := s\<rparr>"
    by (simp add: clear_def)
  have cf: "AutoFree_Clear (u\<lparr>steps := s\<rparr>) w
      = map_option (map_sum id (\<lambda>(u', w'). (u'\<lparr>steps := s\<rparr>, w'))) (AutoFree_Clear u w)"
    by (simp add: AutoFree_Clear_def loop cl option.map_comp sum.map_comp comp_def id_def)
  have cd: "AutoDelete_Clear (u\<lparr>steps := s\<rparr>) w
      = map_option (map_sum id (\<lambda>(u', w'). (u'\<lparr>steps := s\<rparr>, w'))) (AutoDelete_Clear u w)"
    by (simp add: AutoDelete_Clear_def loop cl option.map_comp sum.map_comp comp_def id_def)
  from copy asg src fi inc ins be gr cf cd show ?thesis by (intro conjI) blast+
qed

end
